theory Spec2Isabelle
  imports Main "HOL-Library.AList"
begin

section \<open>Python values\<close>

text \<open>
  The client handles decoded JSON bodies and query-parameter dictionaries. A decoded JSON
  document is one of Python's \<^verbatim>\<open>None\<close>, \<^verbatim>\<open>bool\<close>, \<^verbatim>\<open>int\<close>,
  \<^verbatim>\<open>str\<close>, \<^verbatim>\<open>list\<close> and \<^verbatim>\<open>dict\<close> (with string keys; a dict is
  kept as an association list in insertion order, looked up with \<open>map_of\<close>).
  Floating-point numbers play no part in the code modelled here and are left out.
\<close>

datatype json =
    JNull
  | JBool bool
  | JNum int
  | JStr string
  | JArr "json list"
  | JObj "(string \<times> json) list"

text \<open>
  The exceptions the modelled code can raise or pass on. Both \<open>HTTPError_message\<close> and
  \<open>HTTPError_status\<close> are \<^verbatim>\<open>requests.exceptions.HTTPError\<close>: the first is
  raised by \<^verbatim>\<open>EvergreenApi._raise_for_status\<close> with the server's message as its
  argument, the second by \<^verbatim>\<open>Response.raise_for_status\<close> of the HTTP library, which
  only knows the status. \<open>HTTPError_transport\<close> is an \<^verbatim>\<open>HTTPError\<close> raised by
  the session itself. \<open>ReadTimeout\<close> is a \<^verbatim>\<open>requests\<close> failure that is neither an
  \<^verbatim>\<open>HTTPError\<close> nor a \<^verbatim>\<open>ConnectionError\<close>.
\<close>

datatype error =
    HTTPError_message json int
  | HTTPError_status int
  | HTTPError_transport
  | ConnectionError
  | ReadTimeout
  | JSONDecodeError
  | TypeError
  | AttributeError
  | KeyError
  | IndexError
  | ValueError
  | ValidationError

text \<open>Truth value of a Python object (\<^verbatim>\<open>if x:\<close>, \<^verbatim>\<open>not x\<close>).\<close>

fun truthy :: "json \<Rightarrow> bool" where
  "truthy JNull = False"
| "truthy (JBool b) = b"
| "truthy (JNum n) = (n \<noteq> 0)"
| "truthy (JStr s) = (s \<noteq> [])"
| "truthy (JArr xs) = (xs \<noteq> [])"
| "truthy (JObj kvs) = (kvs \<noteq> [])"

text \<open>\<^verbatim>\<open>p in s\<close> for two strings: \<open>p\<close> occurs in \<open>s\<close> as a contiguous run.\<close>

fun substring :: "string \<Rightarrow> string \<Rightarrow> bool" where
  "substring p [] = (p = [])"
| "substring p (c # cs) = (take (length p) (c # cs) = p \<or> substring p cs)"

text \<open>
  \<^verbatim>\<open>key in x\<close> for a string \<open>key\<close>: key membership in a dict, element membership
  in a list, substring test in a string, and a \<^verbatim>\<open>TypeError\<close> for \<^verbatim>\<open>None\<close>,
  booleans and numbers (they are not iterable).
\<close>

fun py_in :: "string \<Rightarrow> json \<Rightarrow> error + bool" where
  "py_in key (JObj kvs) = Inr (key \<in> set (map fst kvs))"
| "py_in key (JArr xs) = Inr (JStr key \<in> set xs)"
| "py_in key (JStr s) = Inr (substring key s)"
| "py_in key JNull = Inl TypeError"
| "py_in key (JBool b) = Inl TypeError"
| "py_in key (JNum n) = Inl TypeError"

text \<open>
  \<^verbatim>\<open>x[key]\<close> for a string \<open>key\<close>: lookup in a dict (\<^verbatim>\<open>KeyError\<close> when
  absent); lists and strings take integer indices only, the other values are not
  subscriptable (\<^verbatim>\<open>TypeError\<close>).
\<close>

fun py_getitem :: "json \<Rightarrow> string \<Rightarrow> error + json" where
  "py_getitem (JObj kvs) key = (case map_of kvs key of None \<Rightarrow> Inl KeyError | Some v \<Rightarrow> Inr v)"
| "py_getitem (JArr xs) key = Inl TypeError"
| "py_getitem (JStr s) key = Inl TypeError"
| "py_getitem JNull key = Inl TypeError"
| "py_getitem (JBool b) key = Inl TypeError"
| "py_getitem (JNum n) key = Inl TypeError"

text \<open>\<^verbatim>\<open>len(x)\<close>.\<close>

fun py_len :: "json \<Rightarrow> error + nat" where
  "py_len (JArr xs) = Inr (length xs)"
| "py_len (JStr s) = Inr (length s)"
| "py_len (JObj kvs) = Inr (length (remdups (map fst kvs)))"
| "py_len JNull = Inl TypeError"
| "py_len (JBool b) = Inl TypeError"
| "py_len (JNum n) = Inl TypeError"

text \<open>
  The items a \<^verbatim>\<open>for\<close> loop (or \<^verbatim>\<open>list.extend\<close>) draws from a value: the
  elements of a list, the keys of a dict, the characters of a string.
\<close>

fun py_iter :: "json \<Rightarrow> error + json list" where
  "py_iter (JArr xs) = Inr xs"
| "py_iter (JStr s) = Inr (map (\<lambda>c. JStr [c]) s)"
| "py_iter (JObj kvs) = Inr (map JStr (remdups (map fst kvs)))"
| "py_iter JNull = Inl TypeError"
| "py_iter (JBool b) = Inl TypeError"
| "py_iter (JNum n) = Inl TypeError"

text \<open>
  \<^verbatim>\<open>acc.extend(x)\<close>: only a list has the method (\<^verbatim>\<open>AttributeError\<close>
  otherwise), and the argument must be iterable.
\<close>

fun py_extend :: "json \<Rightarrow> json \<Rightarrow> error + json" where
  "py_extend (JArr acc) x = (case py_iter x of Inl e \<Rightarrow> Inl e | Inr ys \<Rightarrow> Inr (JArr (acc @ ys)))"
| "py_extend (JStr s) x = Inl AttributeError"
| "py_extend (JObj kvs) x = Inl AttributeError"
| "py_extend JNull x = Inl AttributeError"
| "py_extend (JBool b) x = Inl AttributeError"
| "py_extend (JNum n) x = Inl AttributeError"

text \<open>
  \<^verbatim>\<open>x[-1]\<close>: the last element of a non-empty list or string; a dict has string keys
  only, so \<^verbatim>\<open>-1\<close> is a missing key.
\<close>

fun py_last :: "json \<Rightarrow> error + json" where
  "py_last (JArr xs) = (if xs = [] then Inl IndexError else Inr (last xs))"
| "py_last (JStr s) = (if s = [] then Inl IndexError else Inr (JStr [last s]))"
| "py_last (JObj kvs) = Inl KeyError"
| "py_last JNull = Inl TypeError"
| "py_last (JBool b) = Inl TypeError"
| "py_last (JNum n) = Inl TypeError"

text \<open>
  \<^verbatim>\<open>n >= x\<close> for an integer \<open>n\<close>: defined against numbers (a boolean is the
  integer 0 or 1), a \<^verbatim>\<open>TypeError\<close> against anything else.
\<close>

fun py_int_ge :: "int \<Rightarrow> json \<Rightarrow> error + bool" where
  "py_int_ge n (JNum k) = Inr (n \<ge> k)"
| "py_int_ge n (JBool b) = Inr (n \<ge> (if b then 1 else 0))"
| "py_int_ge n JNull = Inl TypeError"
| "py_int_ge n (JStr s) = Inl TypeError"
| "py_int_ge n (JArr xs) = Inl TypeError"
| "py_int_ge n (JObj kvs) = Inl TypeError"

section \<open>Requests, responses and the network\<close>

type_synonym params = "(string \<times> json) list option"

text \<open>
  One call of \<^verbatim>\<open>session.request(url=, params=, timeout=, data=, method=)\<close>. The
  timeout is a constant of the API handle and is not part of the record.
\<close>

record request =
  url :: string
  params :: params
  http_method :: string
  data :: "string option"

text \<open>
  What the client reads of a \<^verbatim>\<open>requests.Response\<close>: the status code, the result of
  \<^verbatim>\<open>response.json()\<close> (\<open>None\<close> when the body is not JSON) and
  \<^verbatim>\<open>response.links\<close>, the parsed Link header, as a table from the relation name to
  the link's \<^verbatim>\<open>url\<close>.
\<close>

record response =
  status_code :: int
  content :: "json option"
  links :: "(string \<times> string) list"

definition response_json :: "response \<Rightarrow> error + json" where
  "response_json r = (case content r of None \<Rightarrow> Inl JSONDecodeError | Some j \<Rightarrow> Inr j)"

text \<open>
  \<^verbatim>\<open>Response.raise_for_status()\<close> of the HTTP library: an \<^verbatim>\<open>HTTPError\<close> for
  the client-error (4xx) and server-error (5xx) classes, nothing otherwise.
\<close>

definition response_raise_for_status :: "response \<Rightarrow> error + unit" where
  "response_raise_for_status r =
     (if 400 \<le> status_code r \<and> status_code r < 600 then Inl (HTTPError_status (status_code r))
      else Inr ())"

text \<open>
  The network is a transport: a function from a request and the state of the outside
  world to an outcome (a response, or the exception the session raised) and the next
  state. The world the client runs in pairs that state with the list of requests issued
  so far, so that network calls can be counted.
\<close>

type_synonym 'w transport = "request \<Rightarrow> 'w \<Rightarrow> (error + response) \<times> 'w"

type_synonym 'w world = "'w \<times> request list"

definition session_request :: "'w transport \<Rightarrow> request \<Rightarrow> 'w world \<Rightarrow> (error + response) \<times> 'w world" where
  "session_request send req wd =
     (case send req (fst wd) of (out, w') \<Rightarrow> (out, (w', snd wd @ [req])))"


section \<open>The transport wrapper\<close>

text \<open>
  \<^verbatim>\<open>EvergreenApi._raise_for_status\<close>. The \<^verbatim>\<open>try\<close> block decodes the body and,
  when the status is at least 400 and \<^verbatim>\<open>"error" in json_data\<close>, raises an
  \<^verbatim>\<open>HTTPError\<close> carrying \<^verbatim>\<open>json_data["error"]\<close>. Only a
  \<^verbatim>\<open>JSONDecodeError\<close> is caught; after the block comes
  \<^verbatim>\<open>response.raise_for_status()\<close>.
\<close>

definition raise_for_status_try :: "response \<Rightarrow> error + unit" where
  "raise_for_status_try r =
     (case response_json r of
        Inl e \<Rightarrow> Inl e
      | Inr json_data \<Rightarrow>
          if status_code r \<ge> 400 then
            (case py_in ''error'' json_data of
               Inl e \<Rightarrow> Inl e
             | Inr False \<Rightarrow> Inr ()
             | Inr True \<Rightarrow>
                 (case py_getitem json_data ''error'' of
                    Inl e \<Rightarrow> Inl e
                  | Inr msg \<Rightarrow> Inl (HTTPError_message msg (status_code r))))
          else Inr ())"

definition raise_for_status :: "response \<Rightarrow> error + unit" where
  "raise_for_status r =
     (case raise_for_status_try r of
        Inl JSONDecodeError \<Rightarrow> response_raise_for_status r
      | Inl e \<Rightarrow> Inl e
      | Inr _ \<Rightarrow> response_raise_for_status r)"

text \<open>
  \<^verbatim>\<open>EvergreenApi._call_api\<close>: one request through the session, then the status
  check. Measuring and logging the duration has no effect on the result and is left out.
\<close>

definition call_api ::
  "'w transport \<Rightarrow> string \<Rightarrow> params \<Rightarrow> string \<Rightarrow> string option \<Rightarrow> 'w world \<Rightarrow> (error + response) \<times> 'w world" where
  "call_api send u ps m d wd =
     (case session_request send \<lparr>url = u, params = ps, http_method = m, data = d\<rparr> wd of
        (Inl e, wd') \<Rightarrow> (Inl e, wd')
      | (Inr r, wd') \<Rightarrow>
          (case raise_for_status r of Inl e \<Rightarrow> (Inl e, wd') | Inr _ \<Rightarrow> (Inr r, wd')))"

section \<open>The retrying variant\<close>






section \<open>Eager pagination\<close>

text \<open>
  The pagination methods call \<^verbatim>\<open>self._call_api\<close>, which is the base method or the
  retrying one depending on the class of the handle: the models take it as the argument
  \<open>call\<close>.
\<close>

type_synonym 'w api_call =
  "string \<Rightarrow> params \<Rightarrow> string \<Rightarrow> string option \<Rightarrow> 'w world \<Rightarrow> (error + response) \<times> 'w world"

text \<open>
  The guard \<^verbatim>\<open>params and "limit" in params and len(json_data) >= params["limit"]\<close>
  of \<^verbatim>\<open>_paginate\<close>.
\<close>

definition limit_reached :: "params \<Rightarrow> json \<Rightarrow> error + bool" where
  "limit_reached ps json_data =
     (case ps of
        None \<Rightarrow> Inr False
      | Some kvs \<Rightarrow>
          if kvs = [] then Inr False
          else (case map_of kvs ''limit'' of
                  None \<Rightarrow> Inr False
                | Some lim \<Rightarrow>
                    (case py_len json_data of
                       Inl e \<Rightarrow> Inl e
                     | Inr n \<Rightarrow> py_int_ge (int n) lim)))"

text \<open>
  The \<^verbatim>\<open>while "next" in response.links\<close> loop of \<^verbatim>\<open>_paginate\<close>, with the
  latest response and the accumulated \<^verbatim>\<open>json_data\<close> as its state. The loop runs as
  long as the server keeps sending "next" links, so it is a partial function: \<open>None\<close>
  is the run that never returns.
\<close>

partial_function (option) paginate_loop ::
  "'w api_call \<Rightarrow> params \<Rightarrow> response \<Rightarrow> json \<Rightarrow> 'w world \<Rightarrow> ((error + json) \<times> 'w world) option" where
  "paginate_loop call ps r json_data wd =
     (case map_of (links r) ''next'' of
        None \<Rightarrow> Some (Inr json_data, wd)
      | Some next_url \<Rightarrow>
          (case limit_reached ps json_data of
             Inl e \<Rightarrow> Some (Inl e, wd)
           | Inr stop \<Rightarrow>
               if stop then Some (Inr json_data, wd)
               else
                 (case call next_url None ''GET'' None wd of
                    (Inl e, wd') \<Rightarrow> Some (Inl e, wd')
                  | (Inr r', wd') \<Rightarrow>
                      (case response_json r' of
                         Inl e \<Rightarrow> Some (Inl e, wd')
                       | Inr page \<Rightarrow>
                           if truthy page then
                             (case py_extend json_data page of
                                Inl e \<Rightarrow> Some (Inl e, wd')
                              | Inr json_data' \<Rightarrow> paginate_loop call ps r' json_data' wd')
                           else paginate_loop call ps r' json_data wd'))))"

text \<open>\<^verbatim>\<open>EvergreenApi._paginate\<close>.\<close>

definition paginate ::
  "'w api_call \<Rightarrow> string \<Rightarrow> params \<Rightarrow> 'w world \<Rightarrow> ((error + json) \<times> 'w world) option" where
  "paginate call u ps wd =
     (case call u ps ''GET'' None wd of
        (Inl e, wd') \<Rightarrow> Some (Inl e, wd')
      | (Inr r, wd') \<Rightarrow>
          (case response_json r of
             Inl e \<Rightarrow> Some (Inl e, wd')
           | Inr json_data \<Rightarrow> paginate_loop call ps r json_data wd'))"

section \<open>Lazy pagination\<close>

definition DEFAULT_LIMIT :: int where
  "DEFAULT_LIMIT = 100"

text \<open>\<^verbatim>\<open>if not params: params = {"limit": DEFAULT_LIMIT}\<close>.\<close>

definition default_params :: "params \<Rightarrow> (string \<times> json) list" where
  "default_params ps =
     (case ps of
        None \<Rightarrow> [(''limit'', JNum DEFAULT_LIMIT)]
      | Some kvs \<Rightarrow> if kvs = [] then [(''limit'', JNum DEFAULT_LIMIT)] else kvs)"





text \<open>
  A consumer that asks a generator for at most \<open>n\<close> items (a \<^verbatim>\<open>for\<close> loop left
  by \<^verbatim>\<open>break\<close> after \<open>n\<close> items): the items received, the exception that ended the
  run if one did, the generator's state and the world afterwards.
\<close>

fun gen_take ::
  "nat \<Rightarrow> ('s \<Rightarrow> 'v \<Rightarrow> (error + 'a option) \<times> 's \<times> 'v) \<Rightarrow> 's \<Rightarrow> 'v \<Rightarrow> 'a list \<times> error option \<times> 's \<times> 'v" where
  "gen_take 0 nxt st wd = ([], None, st, wd)"
| "gen_take (Suc n) nxt st wd =
     (case nxt st wd of
        (Inl e, st', wd') \<Rightarrow> ([], Some e, st', wd')
      | (Inr None, st', wd') \<Rightarrow> ([], None, st', wd')
      | (Inr (Some x), st', wd') \<Rightarrow>
          (case gen_take n nxt st' wd' of
             (xs, err, st'', wd'') \<Rightarrow> (x # xs, err, st'', wd'')))"

section \<open>Lazy pagination by date\<close>

text \<open>
  \<^verbatim>\<open>params["start_at"] = evergreen_input_to_output(data[-1]["create_time"])\<close>.
  The function \<^verbatim>\<open>evergreen.util.evergreen_input_to_output\<close> is not among the
  sources; it is the argument \<open>evergreen_input_to_output\<close>, from the value of the
  \<^verbatim>\<open>create_time\<close> field to the normalized string or the exception it raises.
\<close>

definition advance_start_at ::
  "(json \<Rightarrow> error + string) \<Rightarrow> json \<Rightarrow> (string \<times> json) list \<Rightarrow> error + (string \<times> json) list" where
  "advance_start_at evergreen_input_to_output data_page kvs =
     (case py_last data_page of
        Inl e \<Rightarrow> Inl e
      | Inr item \<Rightarrow>
          (case py_getitem item ''create_time'' of
             Inl e \<Rightarrow> Inl e
           | Inr t \<Rightarrow>
               (case evergreen_input_to_output t of
                  Inl e \<Rightarrow> Inl e
                | Inr s \<Rightarrow> Inr (AList.update ''start_at'' (JStr s) kvs))))"

text \<open>
  The states of \<^verbatim>\<open>_lazy_paginate_by_date\<close>: not started; suspended at the
  \<^verbatim>\<open>yield\<close>, holding the items still to be yielded, the page \<^verbatim>\<open>data\<close>, the url
  and the parameter dictionary; finished.
\<close>

datatype by_date_state =
    BD_Start string params
  | BD_Yield "json list" json string "(string \<times> json) list"
  | BD_Done

definition lazy_paginate_by_date :: "string \<Rightarrow> params \<Rightarrow> by_date_state" where
  "lazy_paginate_by_date u ps = BD_Start u ps"

definition by_date_fetch ::
  "'w api_call \<Rightarrow> string \<Rightarrow> (string \<times> json) list \<Rightarrow> 'w world \<Rightarrow> (error + json option) \<times> by_date_state \<times> 'w world" where
  "by_date_fetch call u kvs wd =
     (case call u (Some kvs) ''GET'' None wd of
        (Inl e, wd') \<Rightarrow> (Inl e, BD_Done, wd')
      | (Inr r, wd') \<Rightarrow>
          (case response_json r of
             Inl e \<Rightarrow> (Inl e, BD_Done, wd')
           | Inr data_page \<Rightarrow>
               if \<not> truthy data_page then (Inr None, BD_Done, wd')
               else
                 (case py_iter data_page of
                    Inl e \<Rightarrow> (Inl e, BD_Done, wd')
                  | Inr [] \<Rightarrow> (Inr None, BD_Done, wd')
                  | Inr (x # xs) \<Rightarrow> (Inr (Some x), BD_Yield xs data_page u kvs, wd'))))"

fun by_date_next ::
  "'w api_call \<Rightarrow> (json \<Rightarrow> error + string) \<Rightarrow> by_date_state \<Rightarrow> 'w world \<Rightarrow> (error + json option) \<times> by_date_state \<times> 'w world" where
  "by_date_next call norm (BD_Start u ps) wd = by_date_fetch call u (default_params ps) wd"
| "by_date_next call norm (BD_Yield (x # xs) data_page u kvs) wd =
     (Inr (Some x), BD_Yield xs data_page u kvs, wd)"
| "by_date_next call norm (BD_Yield [] data_page u kvs) wd =
     (case advance_start_at norm data_page kvs of
        Inl e \<Rightarrow> (Inl e, BD_Done, wd)
      | Inr kvs' \<Rightarrow> by_date_fetch call u kvs' wd)"
| "by_date_next call norm BD_Done wd = (Inr None, BD_Done, wd)"

section \<open>Servers that send chains of pages\<close>

text \<open>
  A server without state of its own answers every request by a function of the request.
\<close>

definition stateless :: "(request \<Rightarrow> error + response) \<Rightarrow> 'w transport" where
  "stateless srv req w = (srv req, w)"

text \<open>
  \<open>page_chain srv req pages\<close>: the server answers \<open>req\<close> with the first of
  \<open>pages\<close> as a JSON array under a status below 400; each page but the last carries a
  "next" link, the last carries none, and a plain \<^verbatim>\<open>GET\<close> of a "next" link is
  answered with the page that follows.
\<close>

fun page_chain :: "(request \<Rightarrow> error + response) \<Rightarrow> request \<Rightarrow> json list list \<Rightarrow> bool" where
  "page_chain srv req [] = False"
| "page_chain srv req (p # ps) =
     (case srv req of
        Inl e \<Rightarrow> False
      | Inr r \<Rightarrow>
          status_code r < 400 \<and> content r = Some (JArr p) \<and>
          (case map_of (links r) ''next'' of
             None \<Rightarrow> ps = []
           | Some u \<Rightarrow>
               ps \<noteq> [] \<and>
               page_chain srv \<lparr>url = u, params = None, http_method = ''GET'', data = None\<rparr> ps))"

text \<open>
  How many of the pages \<open>ps\<close> that follow are fetched by a loop that has accumulated
  \<open>n\<close> items and stops before a fetch when \<open>stop\<close> holds of the accumulated count.
\<close>

fun pages_followed :: "(nat \<Rightarrow> bool) \<Rightarrow> nat \<Rightarrow> 'a list list \<Rightarrow> nat" where
  "pages_followed stop n [] = 0"
| "pages_followed stop n (p # ps) =
     (if stop n then 0 else Suc (pages_followed stop (n + length p) ps))"

text \<open>
  Two servers for the examples: four pages \<open>[1, 2]\<close>, \<open>[3]\<close>, \<open>[]\<close>, \<open>[4]\<close>
  at the urls \<open>u1\<close> to \<open>u4\<close>, and two pages \<open>[1]\<close>, \<open>[2, 3]\<close> at \<open>u1\<close> and
  \<open>u2\<close>; both answer by the url alone.
\<close>

definition four_page_server :: "request \<Rightarrow> error + response" where
  "four_page_server req =
     (if url req = ''u1'' then
        Inr \<lparr>status_code = 200, content = Some (JArr [JNum 1, JNum 2]), links = [(''next'', ''u2'')]\<rparr>
      else if url req = ''u2'' then
        Inr \<lparr>status_code = 200, content = Some (JArr [JNum 3]), links = [(''next'', ''u3'')]\<rparr>
      else if url req = ''u3'' then
        Inr \<lparr>status_code = 200, content = Some (JArr []), links = [(''next'', ''u4'')]\<rparr>
      else if url req = ''u4'' then
        Inr \<lparr>status_code = 200, content = Some (JArr [JNum 4]), links = []\<rparr>
      else Inl ConnectionError)"


section \<open>Servers that send full pages\<close>






section \<open>States and servers for pagination by date\<close>

text \<open>
  \<open>about_to_fetch norm st u kvs\<close>: the next step of the generator starts with a request
  for \<open>u\<close> with the parameters \<open>kvs\<close>. That is so before the first step, and
  when the last item of a page has been yielded and the cursor can be advanced.
\<close>

fun about_to_fetch ::
  "(json \<Rightarrow> error + string) \<Rightarrow> by_date_state \<Rightarrow> string \<Rightarrow> (string \<times> json) list \<Rightarrow> bool" where
  "about_to_fetch norm (BD_Start u' ps) u kvs = (u' = u \<and> default_params ps = kvs)"
| "about_to_fetch norm (BD_Yield [] data_page u' kvs') u kvs =
     (u' = u \<and> advance_start_at norm data_page kvs' = Inr kvs)"
| "about_to_fetch norm (BD_Yield (x # xs) data_page u' kvs') u kvs = False"
| "about_to_fetch norm BD_Done u kvs = False"

text \<open>
  For the examples: a transport that answers from a script, one entry per request,
  whatever is asked (and fails to connect once the script is used up); a server that
  answers every request with the same one-item page; and a stand-in for the function
  \<^verbatim>\<open>evergreen_input_to_output\<close> that takes a string as it is. The theorems hold for
  every such function.
\<close>

definition scripted :: "(error + response) list transport" where
  "scripted req script = (case script of [] \<Rightarrow> (Inl ConnectionError, []) | out # rest \<Rightarrow> (out, rest))"

definition same_page_server :: "request \<Rightarrow> error + response" where
  "same_page_server req =
     Inr \<lparr>status_code = 200,
          content = Some (JArr [JObj [(''create_time'', JStr ''2021-03-01T00:00:00.000Z'')]]),
          links = []\<rparr>"

definition string_as_it_is :: "json \<Rightarrow> error + string" where
  "string_as_it_is t = (case t of JStr s \<Rightarrow> Inr s | _ \<Rightarrow> Inl TypeError)"

section \<open>The time-window filter\<close>

text \<open>
  Modelled from the spec: \<^verbatim>\<open>evergreen.util.iterate_by_time_window\<close>, which
  \<^verbatim>\<open>versions_by_project_time_window\<close> and \<^verbatim>\<open>patches_by_project_time_window\<close>
  call, is not among the sources. By the specification it consumes a lazy sequence item
  by item, compares the named timestamp attribute of each item with the window
  \<open>[after, before)\<close>, yields the items inside the window, passes over the items at or
  after \<open>before\<close>, and stops at the first item strictly before \<open>after\<close>.

  The lazy sequence is given by the list of items it would deliver, \<open>time_attr\<close> reads
  the attribute, and the result is the list of items yielded together with the number of
  items drawn from the sequence.
\<close>

fun iterate_by_time_window :: "'a list \<Rightarrow> 't::linorder \<Rightarrow> 't \<Rightarrow> ('a \<Rightarrow> 't) \<Rightarrow> 'a list \<times> nat" where
  "iterate_by_time_window [] before after time_attr = ([], 0)"
| "iterate_by_time_window (item # rest) before after time_attr =
     (if time_attr item < after then ([], 1)
      else (case iterate_by_time_window rest before after time_attr of
              (yielded, drawn) \<Rightarrow>
                (if time_attr item < before then item # yielded else yielded, Suc drawn)))"

section \<open>The cached variant\<close>













section \<open>Properties of the transport wrapper\<close>


lemma raise_for_status_below_400:
  "status_code r < 400 \<Longrightarrow> raise_for_status r = Inr ()"
  by (simp add: raise_for_status_def raise_for_status_try_def response_json_def
      response_raise_for_status_def split: option.splits)

lemma call_api_unfold:
  "send \<lparr>url = u, params = ps, http_method = m, data = d\<rparr> w = (out, w') \<Longrightarrow>
   call_api send u ps m d (w, log) =
     (case out of
        Inl e \<Rightarrow> (Inl e, (w', log @ [\<lparr>url = u, params = ps, http_method = m, data = d\<rparr>]))
      | Inr r \<Rightarrow>
          (case raise_for_status r of
             Inl e \<Rightarrow> (Inl e, (w', log @ [\<lparr>url = u, params = ps, http_method = m, data = d\<rparr>]))
           | Inr _ \<Rightarrow> (Inr r, (w', log @ [\<lparr>url = u, params = ps, http_method = m, data = d\<rparr>]))))"
  by (simp add: call_api_def session_request_def split: sum.splits)

lemma raise_for_status_error_key:
  assumes "status_code r \<ge> 400" "content r = Some (JObj kvs)" "map_of kvs ''error'' = Some msg"
  shows "raise_for_status r = Inl (HTTPError_message msg (status_code r))"
proof -
  have "''error'' \<in> fst ` set kvs"
    using assms(3) by (metis map_of_eq_None_iff option.distinct(1))
  then show ?thesis
    using assms by (simp add: raise_for_status_def raise_for_status_try_def response_json_def)
qed


lemma raise_for_status_no_error_key:
  assumes "content r = Some (JObj kvs)" "map_of kvs ''error'' = None"
  shows "raise_for_status r = response_raise_for_status r"
proof -
  have "''error'' \<notin> fst ` set kvs"
    using assms(2) by (simp add: map_of_eq_None_iff)
  then show ?thesis
    using assms by (simp add: raise_for_status_def raise_for_status_try_def response_json_def)
qed

text \<open>
  C10: for every response with a status below 400, the status check raises nothing and
  \<^verbatim>\<open>_call_api\<close> returns the response, whatever the body is, a JSON object with an
  \<^verbatim>\<open>error\<close> key included; exactly one request is issued.
\<close>

theorem call_api_returns_below_400:
  assumes "send \<lparr>url = u, params = ps, http_method = m, data = d\<rparr> w = (Inr r, w')"
    and "status_code r < 400"
  shows "raise_for_status r = Inr () \<and>
         call_api send u ps m d (w, log) =
           (Inr r, (w', log @ [\<lparr>url = u, params = ps, http_method = m, data = d\<rparr>]))"
  using assms by (simp add: call_api_unfold raise_for_status_below_400)

theorem call_api_returns_below_400_witness:
  "status_code \<lparr>status_code = 200, content = Some (JObj [(''error'', JStr ''boom'')]), links = []\<rparr> < 400 \<and>
   call_api (\<lambda>req w. (Inr \<lparr>status_code = 200, content = Some (JObj [(''error'', JStr ''boom'')]), links = []\<rparr>, w))
     ''http://evg/rest/v2/versions/v1'' None ''GET'' None ((), []) =
     (Inr \<lparr>status_code = 200, content = Some (JObj [(''error'', JStr ''boom'')]), links = []\<rparr>,
      ((), [\<lparr>url = ''http://evg/rest/v2/versions/v1'', params = None, http_method = ''GET'', data = None\<rparr>]))"
  using call_api_returns_below_400
    [of "\<lambda>req w. (Inr \<lparr>status_code = 200, content = Some (JObj [(''error'', JStr ''boom'')]), links = []\<rparr>, w)"
        "''http://evg/rest/v2/versions/v1''" None "''GET''" None "()"
        "\<lparr>status_code = 200, content = Some (JObj [(''error'', JStr ''boom'')]), links = []\<rparr>" "()" "[]"]
  by simp

text \<open>
  C2: a response with status 500 whose body is the JSON document \<^verbatim>\<open>null\<close> has no
  \<^verbatim>\<open>error\<close> key, yet the status check ends in a \<^verbatim>\<open>TypeError\<close> (from
  \<^verbatim>\<open>"error" in None\<close>), not in the generic HTTP-status failure; the same happens for
  a JSON string that contains the word, where the subscript fails.
\<close>

theorem raise_for_status_null_body:
  "raise_for_status \<lparr>status_code = 500, content = Some JNull, links = []\<rparr> = Inl TypeError \<and>
   raise_for_status \<lparr>status_code = 500, content = Some (JStr ''internal error''), links = []\<rparr> = Inl TypeError \<and>
   response_raise_for_status \<lparr>status_code = 500, content = Some JNull, links = []\<rparr> = Inl (HTTPError_status 500)"
  by (simp add: raise_for_status_def raise_for_status_try_def response_json_def
      response_raise_for_status_def)

section \<open>Properties of the retrying variant\<close>

lemma call_api_log:
  "call_api send u ps m d wd = (out, wd') \<Longrightarrow>
   snd wd' = snd wd @ [\<lparr>url = u, params = ps, http_method = m, data = d\<rparr>]"
  by (auto simp: call_api_def session_request_def split: prod.splits sum.splits)










section \<open>Properties of eager pagination\<close>

lemma call_api_stateless:
  "srv \<lparr>url = u, params = ps, http_method = m, data = d\<rparr> = Inr r \<Longrightarrow> status_code r < 400 \<Longrightarrow>
   call_api (stateless srv) u ps m d (w, log) =
     (Inr r, (w, log @ [\<lparr>url = u, params = ps, http_method = m, data = d\<rparr>]))"
  by (simp add: call_api_unfold[where w'=w and out="Inr r"] stateless_def raise_for_status_below_400)

lemma paginate_loop_chain:
  assumes stop: "\<And>acc. limit_reached ps (JArr acc) = Inr (stop (length acc))"
  shows "(case map_of (links r) ''next'' of
            None \<Rightarrow> rest = []
          | Some u \<Rightarrow> rest \<noteq> [] \<and>
              page_chain srv \<lparr>url = u, params = None, http_method = ''GET'', data = None\<rparr> rest) \<Longrightarrow>
         \<exists>reqs. paginate_loop (call_api (stateless srv)) ps r (JArr acc) (w, log) =
           Some (Inr (JArr (acc @ concat (take (pages_followed stop (length acc) rest) rest))),
                 (w, log @ reqs)) \<and>
           length reqs = pages_followed stop (length acc) rest"
proof (induction rest arbitrary: r acc log)
  case Nil
  then have "map_of (links r) ''next'' = None" by (simp split: option.splits)
  then show ?case by (subst paginate_loop.simps) simp
next
  case (Cons p rest)
  from Cons.prems obtain u where u: "map_of (links r) ''next'' = Some u"
    and ch: "page_chain srv \<lparr>url = u, params = None, http_method = ''GET'', data = None\<rparr> (p # rest)"
    by (auto split: option.splits)
  from ch obtain r' where r': "srv \<lparr>url = u, params = None, http_method = ''GET'', data = None\<rparr> = Inr r'"
    "status_code r' < 400" "content r' = Some (JArr p)"
    and nxt: "(case map_of (links r') ''next'' of
            None \<Rightarrow> rest = []
          | Some u \<Rightarrow> rest \<noteq> [] \<and>
              page_chain srv \<lparr>url = u, params = None, http_method = ''GET'', data = None\<rparr> rest)"
    by (auto split: sum.splits)
  show ?case
  proof (cases "stop (length acc)")
    case True
    then show ?thesis using u stop[of acc] by (subst paginate_loop.simps) simp
  next
    case False
    let ?req = "\<lparr>url = u, params = None, http_method = ''GET'', data = None\<rparr>"
    have call: "call_api (stateless srv) u None ''GET'' None (w, log) = (Inr r', (w, log @ [?req]))"
      using r' by (simp add: call_api_stateless)
    from Cons.IH[OF nxt, of "acc @ p" "log @ [?req]"] obtain reqs where
      IH: "paginate_loop (call_api (stateless srv)) ps r' (JArr (acc @ p)) (w, log @ [?req]) =
           Some (Inr (JArr ((acc @ p) @ concat (take (pages_followed stop (length (acc @ p)) rest) rest))),
                 (w, (log @ [?req]) @ reqs))"
        "length reqs = pages_followed stop (length (acc @ p)) rest"
      by blast
    have step: "paginate_loop (call_api (stateless srv)) ps r (JArr acc) (w, log) =
                paginate_loop (call_api (stateless srv)) ps r' (JArr (acc @ p)) (w, log @ [?req])"
      using u stop[of acc] False call r'(3)
      by (subst paginate_loop.simps) (auto simp: response_json_def)
    show ?thesis
      using step IH False by (intro exI[of _ "?req # reqs"]) simp
  qed
qed




lemma pages_followed_never: "pages_followed (\<lambda>_. False) n ps = length ps"
  by (induction ps arbitrary: n) auto

lemma concat_nonempty_pages: "concat (filter (\<lambda>p. p \<noteq> []) ps) = concat ps"
  by (induction ps) auto

lemma limit_reached_absent:
  "(case ps of None \<Rightarrow> True | Some kvs \<Rightarrow> map_of kvs ''limit'' = None) \<Longrightarrow>
   limit_reached ps json_data = Inr False"
  by (auto simp: limit_reached_def split: option.splits)


lemma paginate_chain:
  assumes stop: "\<And>acc. limit_reached ps (JArr acc) = Inr (stop (length acc))"
    and chain: "page_chain srv \<lparr>url = u, params = ps, http_method = ''GET'', data = None\<rparr> (p # rest)"
  shows "\<exists>reqs. paginate (call_api (stateless srv)) u ps (w, log) =
           Some (Inr (JArr (concat (take (Suc (pages_followed stop (length p) rest)) (p # rest)))),
                 (w, log @ reqs)) \<and>
           length reqs = Suc (pages_followed stop (length p) rest)"
proof -
  let ?req = "\<lparr>url = u, params = ps, http_method = ''GET'', data = None\<rparr>"
  from chain obtain r where r: "srv ?req = Inr r" "status_code r < 400" "content r = Some (JArr p)"
    and nxt: "(case map_of (links r) ''next'' of
            None \<Rightarrow> rest = []
          | Some u \<Rightarrow> rest \<noteq> [] \<and>
              page_chain srv \<lparr>url = u, params = None, http_method = ''GET'', data = None\<rparr> rest)"
    by (auto split: sum.splits)
  have call: "call_api (stateless srv) u ps ''GET'' None (w, log) = (Inr r, (w, log @ [?req]))"
    using r by (simp add: call_api_stateless)
  from paginate_loop_chain[where ps=ps and stop=stop and r=r and rest=rest and srv=srv
      and acc=p and w=w and log="log @ [?req]", OF stop nxt]
  obtain reqs where
    L: "paginate_loop (call_api (stateless srv)) ps r (JArr p) (w, log @ [?req]) =
        Some (Inr (JArr (p @ concat (take (pages_followed stop (length p) rest) rest))),
              (w, (log @ [?req]) @ reqs))"
       "length reqs = pages_followed stop (length p) rest"
    by blast
  have "paginate (call_api (stateless srv)) u ps (w, log) =
        paginate_loop (call_api (stateless srv)) ps r (JArr p) (w, log @ [?req])"
    using call r(3) by (simp add: paginate_def response_json_def)
  then show ?thesis using L by (intro exI[of _ "?req # reqs"]) simp
qed


text \<open>
  C1: when the server sends a chain of pages linked by "next" links and no limit is set,
  \<^verbatim>\<open>_paginate\<close> returns and its result is the concatenation of the items of the
  non-empty pages in the order sent, after one request per page of the chain, empty pages
  included: an empty page does not end the loop. (With an empty page between others, as
  in the example that follows the theorem, all pages after it are still fetched.)
\<close>

theorem paginate_follows_all_pages:
  assumes "page_chain srv \<lparr>url = u, params = ps, http_method = ''GET'', data = None\<rparr> pages"
    and "case ps of None \<Rightarrow> True | Some kvs \<Rightarrow> map_of kvs ''limit'' = None"
  shows "\<exists>reqs. paginate (call_api (stateless srv)) u ps (w, log) =
           Some (Inr (JArr (concat (filter (\<lambda>p. p \<noteq> []) pages))), (w, log @ reqs)) \<and>
         length reqs = length pages"
proof -
  from assms(1) obtain p rest where pages: "pages = p # rest" by (cases pages) auto
  have "\<And>acc. limit_reached ps (JArr acc) = Inr ((\<lambda>_. False) (length acc))"
    using assms(2) by (simp add: limit_reached_absent)
  from paginate_chain[where ps=ps and stop="\<lambda>_. False" and srv=srv and u=u and p=p and rest=rest
      and w=w and log=log, OF this] assms(1) pages
  show ?thesis unfolding concat_nonempty_pages by (simp add: pages_followed_never)
qed

theorem paginate_follows_all_pages_witness:
  "page_chain four_page_server \<lparr>url = ''u1'', params = None, http_method = ''GET'', data = None\<rparr>
     [[JNum 1, JNum 2], [JNum 3], [], [JNum 4]] \<and>
   (\<exists>reqs. paginate (call_api (stateless four_page_server)) ''u1'' None ((), []) =
      Some (Inr (JArr [JNum 1, JNum 2, JNum 3, JNum 4]), ((), reqs)) \<and> length reqs = 4 \<and> 3 \<le> length reqs)"
proof -
  have ch: "page_chain four_page_server \<lparr>url = ''u1'', params = None, http_method = ''GET'', data = None\<rparr>
     [[JNum 1, JNum 2], [JNum 3], [], [JNum 4]]"
    by (simp add: four_page_server_def)
  from paginate_follows_all_pages[OF ch, of "()" "[]"] obtain reqs where
    "paginate (call_api (stateless four_page_server)) ''u1'' None ((), []) =
      Some (Inr (JArr [JNum 1, JNum 2, JNum 3, JNum 4]), ((), reqs))" "length reqs = 4"
    by auto
  then show ?thesis using ch by auto
qed





section \<open>Properties of lazy pagination\<close>

text \<open>
  A body that is true as a truth value and iterable has a first item, so the generators
  never start a \<^verbatim>\<open>for\<close> loop over nothing.
\<close>

lemma truthy_iter_nonempty: "truthy j \<Longrightarrow> py_iter j = Inr xs \<Longrightarrow> xs \<noteq> []"
  by (cases j) auto











section \<open>Properties of lazy pagination by date\<close>

lemma gen_take_by_date_buffer:
  "gen_take (length xs) (by_date_next call norm) (BD_Yield xs data_page u kvs) wd =
     (xs, None, BD_Yield [] data_page u kvs, wd)"
  by (induction xs) auto

lemma gen_take_add:
  "gen_take n nxt st wd = (xs, None, st1, wd1) \<Longrightarrow> length xs = n \<Longrightarrow>
   gen_take (n + k) nxt st wd =
     (case gen_take k nxt st1 wd1 of (ys, e, st2, wd2) \<Rightarrow> (xs @ ys, e, st2, wd2))"
proof (induction n arbitrary: st wd xs)
  case 0
  then show ?case by (auto split: prod.splits)
next
  case (Suc n)
  obtain out st' wd' where s: "nxt st wd = (out, st', wd')" by (cases "nxt st wd")
  from Suc.prems s obtain x xs' where x: "out = Inr (Some x)" "xs = x # xs'"
    "gen_take n nxt st' wd' = (xs', None, st1, wd1)"
    by (auto split: sum.splits option.splits prod.splits)
  from Suc.IH[OF x(3)] Suc.prems(2) x(2)
  have "gen_take (n + k) nxt st' wd' =
     (case gen_take k nxt st1 wd1 of (ys, e, st2, wd2) \<Rightarrow> (xs' @ ys, e, st2, wd2))" by simp
  then show ?case using s x by (auto split: prod.splits)
qed

lemma by_date_fetch_page:
  assumes "send \<lparr>url = u, params = Some kvs, http_method = ''GET'', data = None\<rparr> w = (Inr r, w')"
    and "status_code r < 400" and "content r = Some (JArr page)"
  shows "by_date_fetch (call_api send) u kvs (w, log) =
           (case page of
              [] \<Rightarrow> (Inr None, BD_Done, (w', log @ [\<lparr>url = u, params = Some kvs, http_method = ''GET'', data = None\<rparr>]))
            | x # xs \<Rightarrow> (Inr (Some x), BD_Yield xs (JArr page) u kvs,
                        (w', log @ [\<lparr>url = u, params = Some kvs, http_method = ''GET'', data = None\<rparr>])))"
  using assms
  by (simp add: by_date_fetch_def call_api_unfold raise_for_status_below_400 response_json_def
      split: list.splits)

lemma by_date_fetch_take:
  assumes "send \<lparr>url = u, params = Some kvs, http_method = ''GET'', data = None\<rparr> w = (Inr r, w')"
    and "status_code r < 400" and "content r = Some (JArr page)"
    and "by_date_next (call_api send) norm st (w, log) = by_date_fetch (call_api send) u kvs (w, log)"
  shows "page \<noteq> [] \<Longrightarrow>
           gen_take (length page) (by_date_next (call_api send) norm) st (w, log) =
             (page, None, BD_Yield [] (JArr page) u kvs,
              (w', log @ [\<lparr>url = u, params = Some kvs, http_method = ''GET'', data = None\<rparr>]))"
    and "page = [] \<Longrightarrow>
           gen_take (Suc k) (by_date_next (call_api send) norm) st (w, log) =
             ([], None, BD_Done,
              (w', log @ [\<lparr>url = u, params = Some kvs, http_method = ''GET'', data = None\<rparr>]))"
proof -
  note f = by_date_fetch_page[where send=send and u=u and kvs=kvs and w=w and r=r and w'=w'
      and page=page and log=log, OF assms(1-3)]
  show "gen_take (Suc k) (by_date_next (call_api send) norm) st (w, log) =
             ([], None, BD_Done,
              (w', log @ [\<lparr>url = u, params = Some kvs, http_method = ''GET'', data = None\<rparr>]))"
    if "page = []"
    using that f assms(4) by simp
  show "gen_take (length page) (by_date_next (call_api send) norm) st (w, log) =
             (page, None, BD_Yield [] (JArr page) u kvs,
              (w', log @ [\<lparr>url = u, params = Some kvs, http_method = ''GET'', data = None\<rparr>]))"
    if "page \<noteq> []"
  proof -
    from that obtain x xs where p: "page = x # xs" by (cases page) auto
    then show ?thesis
      using f assms(4) gen_take_by_date_buffer[of xs "call_api send" norm "JArr page" u kvs]
      by simp
  qed
qed

lemma advance_start_at_page:
  assumes "page \<noteq> []" and "last page = JObj attrs"
    and "map_of attrs ''create_time'' = Some t" and "norm t = Inr s"
  shows "advance_start_at norm (JArr page) kvs = Inr (AList.update ''start_at'' (JStr s) kvs)"
  using assms by (simp add: advance_start_at_def)

lemma update_same_iff:
  "AList.update k v kvs = kvs \<longleftrightarrow> map_of kvs k = Some v"
proof (induction kvs)
  case Nil
  then show ?case by simp
next
  case (Cons a kvs)
  then show ?case by (cases a) auto
qed

lemma by_date_done:
  "gen_take n (by_date_next call norm) BD_Done wd = ([], None, BD_Done, wd)"
  by (cases n) auto

lemma about_to_fetch_next:
  "about_to_fetch norm st u kvs \<Longrightarrow> by_date_next call norm st wd = by_date_fetch call u kvs wd"
  by (induction norm st u kvs rule: about_to_fetch.induct) auto

text \<open>
  C5: at any point where \<^verbatim>\<open>_lazy_paginate_by_date\<close> is about to fetch with the
  parameters \<open>kvs\<close> and the server answers with a non-empty page, the items of the page
  are yielded in order, and the request that follows carries the same parameters with
  \<^verbatim>\<open>start_at\<close> set to the normalized \<^verbatim>\<open>create_time\<close> of the last item of
  that page. If the answer to that request is an empty page, iteration stops there: a
  consumer that keeps asking gets nothing more and no third request is issued. If it is
  non-empty, its items follow and the generator is again about to fetch.
\<close>

theorem lazy_paginate_by_date_cursor:
  assumes st: "about_to_fetch norm st u kvs"
    and p1: "send \<lparr>url = u, params = Some kvs, http_method = ''GET'', data = None\<rparr> w0 = (Inr r1, w1)"
      "status_code r1 < 400" "content r1 = Some (JArr page1)" "page1 \<noteq> []"
    and lst: "last page1 = JObj attrs" "map_of attrs ''create_time'' = Some t" "norm t = Inr s"
    and p2: "send \<lparr>url = u, params = Some (AList.update ''start_at'' (JStr s) kvs),
                  http_method = ''GET'', data = None\<rparr> w1 = (Inr r2, w2)"
      "status_code r2 < 400" "content r2 = Some (JArr page2)"
  shows "gen_take (length page1) (by_date_next (call_api send) norm) st (w0, log) =
           (page1, None, BD_Yield [] (JArr page1) u kvs,
            (w1, log @ [\<lparr>url = u, params = Some kvs, http_method = ''GET'', data = None\<rparr>])) \<and>
         about_to_fetch norm (BD_Yield [] (JArr page1) u kvs) u (AList.update ''start_at'' (JStr s) kvs) \<and>
         map_of (AList.update ''start_at'' (JStr s) kvs) ''start_at'' = Some (JStr s) \<and>
         (page2 = [] \<longrightarrow>
            gen_take (length page1 + Suc k) (by_date_next (call_api send) norm) st (w0, log) =
              (page1, None, BD_Done,
               (w2, log @ [\<lparr>url = u, params = Some kvs, http_method = ''GET'', data = None\<rparr>,
                           \<lparr>url = u, params = Some (AList.update ''start_at'' (JStr s) kvs),
                            http_method = ''GET'', data = None\<rparr>]))) \<and>
         (page2 \<noteq> [] \<longrightarrow>
            gen_take (length page1 + length page2) (by_date_next (call_api send) norm) st (w0, log) =
              (page1 @ page2, None,
               BD_Yield [] (JArr page2) u (AList.update ''start_at'' (JStr s) kvs),
               (w2, log @ [\<lparr>url = u, params = Some kvs, http_method = ''GET'', data = None\<rparr>,
                           \<lparr>url = u, params = Some (AList.update ''start_at'' (JStr s) kvs),
                            http_method = ''GET'', data = None\<rparr>])))"
proof -
  let ?nxt = "by_date_next (call_api send) norm"
  let ?kvs' = "AList.update ''start_at'' (JStr s) kvs"
  let ?req1 = "\<lparr>url = u, params = Some kvs, http_method = ''GET'', data = None\<rparr>"
  let ?req2 = "\<lparr>url = u, params = Some ?kvs', http_method = ''GET'', data = None\<rparr>"
  let ?st1 = "BD_Yield [] (JArr page1) u kvs"
  have nf1: "?nxt st (w0, log) = by_date_fetch (call_api send) u kvs (w0, log)"
    by (rule about_to_fetch_next[OF st])
  have first: "gen_take (length page1) ?nxt st (w0, log) = (page1, None, ?st1, (w1, log @ [?req1]))"
    by (rule by_date_fetch_take(1)[where send=send and u=u and kvs=kvs and w=w0 and r=r1 and w'=w1
        and page=page1 and norm=norm and st=st and log=log, OF p1(1-3) nf1 p1(4)])
  have adv: "about_to_fetch norm ?st1 u ?kvs'"
    using advance_start_at_page[where page=page1 and attrs=attrs and t=t and norm=norm and s=s
        and kvs=kvs, OF p1(4) lst] by simp
  have nf2: "?nxt ?st1 (w1, log @ [?req1]) = by_date_fetch (call_api send) u ?kvs' (w1, log @ [?req1])"
    by (rule about_to_fetch_next[OF adv])
  have cur: "map_of ?kvs' ''start_at'' = Some (JStr s)"
    by (simp add: update_conv')
  have stop: "gen_take (length page1 + Suc k) ?nxt st (w0, log) =
      (page1, None, BD_Done, (w2, log @ [?req1, ?req2]))" if "page2 = []"
    using gen_take_add[OF first, of "Suc k"]
      by_date_fetch_take(2)[where send=send and u=u and kvs="?kvs'" and w=w1 and r=r2 and w'=w2
        and page=page2 and norm=norm and st="?st1" and log="log @ [?req1]" and k=k,
        OF p2(1-3) nf2 that] by simp
  have more: "gen_take (length page1 + length page2) ?nxt st (w0, log) =
      (page1 @ page2, None, BD_Yield [] (JArr page2) u ?kvs', (w2, log @ [?req1, ?req2]))"
    if "page2 \<noteq> []"
    using gen_take_add[OF first, of "length page2"]
      by_date_fetch_take(1)[where send=send and u=u and kvs="?kvs'" and w=w1 and r=r2 and w'=w2
        and page=page2 and norm=norm and st="?st1" and log="log @ [?req1]",
        OF p2(1-3) nf2 that] by simp
  show ?thesis using first adv cur stop more by blast
qed

theorem lazy_paginate_by_date_cursor_witness:
  "gen_take 6 (by_date_next (call_api scripted) string_as_it_is) (lazy_paginate_by_date ''u'' None)
     ([Inr \<lparr>status_code = 200,
              content = Some (JArr [JObj [(''create_time'', JStr ''2021-03-02T00:00:00.000Z'')],
                                    JObj [(''create_time'', JStr ''2021-03-01T00:00:00.000Z'')]]),
              links = []\<rparr>,
       Inr \<lparr>status_code = 200, content = Some (JArr []), links = []\<rparr>,
       Inr \<lparr>status_code = 200,
              content = Some (JArr [JObj [(''create_time'', JStr ''2021-02-01T00:00:00.000Z'')]]),
              links = []\<rparr>], []) =
     ([JObj [(''create_time'', JStr ''2021-03-02T00:00:00.000Z'')],
       JObj [(''create_time'', JStr ''2021-03-01T00:00:00.000Z'')]], None, BD_Done,
      ([Inr \<lparr>status_code = 200,
               content = Some (JArr [JObj [(''create_time'', JStr ''2021-02-01T00:00:00.000Z'')]]),
               links = []\<rparr>],
       [\<lparr>url = ''u'', params = Some [(''limit'', JNum 100)], http_method = ''GET'', data = None\<rparr>,
        \<lparr>url = ''u'',
          params = Some [(''limit'', JNum 100), (''start_at'', JStr ''2021-03-01T00:00:00.000Z'')],
          http_method = ''GET'', data = None\<rparr>]))"
proof -
  let ?p1 = "[JObj [(''create_time'', JStr ''2021-03-02T00:00:00.000Z'')],
              JObj [(''create_time'', JStr ''2021-03-01T00:00:00.000Z'')]]"
  let ?r1 = "\<lparr>status_code = 200, content = Some (JArr ?p1), links = []\<rparr>"
  let ?r2 = "\<lparr>status_code = 200, content = Some (JArr []), links = []\<rparr>"
  let ?r3 = "\<lparr>status_code = 200,
              content = Some (JArr [JObj [(''create_time'', JStr ''2021-02-01T00:00:00.000Z'')]]),
              links = []\<rparr>"
  have st: "about_to_fetch string_as_it_is (lazy_paginate_by_date ''u'' None) ''u'' [(''limit'', JNum 100)]"
    by (simp add: lazy_paginate_by_date_def default_params_def DEFAULT_LIMIT_def)
  have a1: "scripted \<lparr>url = ''u'', params = Some [(''limit'', JNum 100)], http_method = ''GET'', data = None\<rparr>
      [Inr ?r1, Inr ?r2, Inr ?r3] = (Inr ?r1, [Inr ?r2, Inr ?r3])"
    by (simp add: scripted_def)
  have a2: "scripted \<lparr>url = ''u'',
        params = Some (AList.update ''start_at'' (JStr ''2021-03-01T00:00:00.000Z'') [(''limit'', JNum 100)]),
        http_method = ''GET'', data = None\<rparr>
      [Inr ?r2, Inr ?r3] = (Inr ?r2, [Inr ?r3])"
    by (simp add: scripted_def)
  have n: "string_as_it_is (JStr ''2021-03-01T00:00:00.000Z'') = Inr ''2021-03-01T00:00:00.000Z''"
    by (simp add: string_as_it_is_def)
  from lazy_paginate_by_date_cursor
    [where norm=string_as_it_is and st="lazy_paginate_by_date ''u'' None" and u="''u''"
       and kvs="[(''limit'', JNum 100)]" and send=scripted and ?w0.0="[Inr ?r1, Inr ?r2, Inr ?r3]"
       and ?r1.0="?r1" and ?w1.0="[Inr ?r2, Inr ?r3]" and ?page1.0="?p1"
       and attrs="[(''create_time'', JStr ''2021-03-01T00:00:00.000Z'')]"
       and t="JStr ''2021-03-01T00:00:00.000Z''" and s="''2021-03-01T00:00:00.000Z''"
       and ?r2.0="?r2" and ?w2.0="[Inr ?r3]" and ?page2.0="[]" and k=3 and log="[]",
     OF st a1 _ _ _ _ _ n a2]
  show ?thesis by simp
qed

text \<open>
  C6, as the claim states it: the cursor need not move. A server that answers every
  request with the same one-item page makes the second and the third request carry the
  same \<^verbatim>\<open>start_at\<close>, and the same page is fetched again.
\<close>

theorem by_date_cursor_counterexample:
  "gen_take 3 (by_date_next (call_api (stateless same_page_server)) string_as_it_is)
     (lazy_paginate_by_date ''u'' None) ((), []) =
     ([JObj [(''create_time'', JStr ''2021-03-01T00:00:00.000Z'')],
       JObj [(''create_time'', JStr ''2021-03-01T00:00:00.000Z'')],
       JObj [(''create_time'', JStr ''2021-03-01T00:00:00.000Z'')]], None,
      BD_Yield [] (JArr [JObj [(''create_time'', JStr ''2021-03-01T00:00:00.000Z'')]]) ''u''
        [(''limit'', JNum 100), (''start_at'', JStr ''2021-03-01T00:00:00.000Z'')],
      ((), [\<lparr>url = ''u'', params = Some [(''limit'', JNum 100)], http_method = ''GET'', data = None\<rparr>,
            \<lparr>url = ''u'',
              params = Some [(''limit'', JNum 100), (''start_at'', JStr ''2021-03-01T00:00:00.000Z'')],
              http_method = ''GET'', data = None\<rparr>,
            \<lparr>url = ''u'',
              params = Some [(''limit'', JNum 100), (''start_at'', JStr ''2021-03-01T00:00:00.000Z'')],
              http_method = ''GET'', data = None\<rparr>]))"
  by (simp add: numeral_3_eq_3 lazy_paginate_by_date_def by_date_fetch_def call_api_stateless
      same_page_server_def response_json_def default_params_def DEFAULT_LIMIT_def
      advance_start_at_def string_as_it_is_def)

text \<open>
  C6, amended: when the last item of a non-empty page has been yielded, the request that
  follows carries \<^verbatim>\<open>start_at\<close> set to the normalized \<^verbatim>\<open>create_time\<close> of that
  item, whatever \<^verbatim>\<open>start_at\<close> was before: the client compares nothing. The request
  is the one sent before exactly when the parameters already carried that value.
\<close>

theorem by_date_cursor_follows_server:
  assumes "page \<noteq> []" and "last page = JObj attrs"
    and "map_of attrs ''create_time'' = Some t" and "norm t = Inr s"
  shows "snd (snd (snd (by_date_next (call_api send) norm (BD_Yield [] (JArr page) u kvs) wd))) =
           snd wd @ [\<lparr>url = u, params = Some (AList.update ''start_at'' (JStr s) kvs),
                      http_method = ''GET'', data = None\<rparr>] \<and>
         map_of (AList.update ''start_at'' (JStr s) kvs) ''start_at'' = Some (JStr s) \<and>
         (\<lparr>url = u, params = Some (AList.update ''start_at'' (JStr s) kvs),
           http_method = ''GET'', data = None\<rparr> =
          \<lparr>url = u, params = Some kvs, http_method = ''GET'', data = None\<rparr>
          \<longleftrightarrow> map_of kvs ''start_at'' = Some (JStr s))"
proof -
  let ?kvs' = "AList.update ''start_at'' (JStr s) kvs"
  obtain out wd' where c: "call_api send u (Some ?kvs') ''GET'' None wd = (out, wd')"
    by (cases "call_api send u (Some ?kvs') ''GET'' None wd")
  have "snd (snd (by_date_fetch (call_api send) u ?kvs' wd)) = wd'"
    using c by (auto simp: by_date_fetch_def split: sum.splits list.splits)
  then have "snd (snd (snd (by_date_next (call_api send) norm (BD_Yield [] (JArr page) u kvs) wd))) =
      snd wd @ [\<lparr>url = u, params = Some ?kvs', http_method = ''GET'', data = None\<rparr>]"
    using advance_start_at_page[where page=page and attrs=attrs and t=t and norm=norm and s=s
        and kvs=kvs, OF assms] call_api_log[OF c] by simp
  then show ?thesis by (simp add: update_conv' update_same_iff)
qed

theorem by_date_cursor_follows_server_witness:
  "snd (snd (snd (by_date_next (call_api (stateless same_page_server)) string_as_it_is
      (BD_Yield [] (JArr [JObj [(''create_time'', JStr ''2021-03-01T00:00:00.000Z'')]]) ''u''
         [(''limit'', JNum 100), (''start_at'', JStr ''2021-03-01T00:00:00.000Z'')])
      ((), [])))) =
     [\<lparr>url = ''u'',
       params = Some [(''limit'', JNum 100), (''start_at'', JStr ''2021-03-01T00:00:00.000Z'')],
       http_method = ''GET'', data = None\<rparr>]"
proof -
  have n: "string_as_it_is (JStr ''2021-03-01T00:00:00.000Z'') = Inr ''2021-03-01T00:00:00.000Z''"
    by (simp add: string_as_it_is_def)
  from by_date_cursor_follows_server
    [where page="[JObj [(''create_time'', JStr ''2021-03-01T00:00:00.000Z'')]]"
       and attrs="[(''create_time'', JStr ''2021-03-01T00:00:00.000Z'')]"
       and t="JStr ''2021-03-01T00:00:00.000Z''" and norm=string_as_it_is
       and s="''2021-03-01T00:00:00.000Z''" and send="stateless same_page_server" and u="''u''"
       and kvs="[(''limit'', JNum 100), (''start_at'', JStr ''2021-03-01T00:00:00.000Z'')]"
       and wd="((), [])",
     OF _ _ _ n]
  show ?thesis by simp
qed


section \<open>Properties of the time-window filter\<close>

lemma iterate_by_time_window_drawn:
  "snd (iterate_by_time_window items before after time_attr) =
     (if \<exists>x\<in>set items. time_attr x < after
      then Suc (length (takeWhile (\<lambda>x. \<not> time_attr x < after) items))
      else length items)"
  by (induction items) (auto split: prod.splits)

lemma iterate_by_time_window_yielded:
  "sorted_wrt (\<lambda>x y. time_attr y \<le> time_attr x) items \<Longrightarrow>
   fst (iterate_by_time_window items before after time_attr) =
     filter (\<lambda>x. after \<le> time_attr x \<and> time_attr x < before) items"
proof (induction items)
  case Nil
  then show ?case by simp
next
  case (Cons item rest)
  show ?case
  proof (cases "time_attr item < after")
    case True
    then have "\<forall>y\<in>set rest. \<not> after \<le> time_attr y"
      using Cons.prems by auto
    then have "filter (\<lambda>x. after \<le> time_attr x \<and> time_attr x < before) rest = []"
      by (simp add: filter_empty_conv)
    then show ?thesis using True by (auto simp: not_le)
  next
    case False
    then show ?thesis using Cons by (auto split: prod.splits)
  qed
qed

text \<open>
  C8: applied to a sequence whose items arrive in descending order of the timestamp
  attribute, the time-window filter yields exactly the items whose timestamp lies in
  \<open>[after, before)\<close>, in order; and it draws from the sequence up to and including the
  first item whose timestamp is strictly before \<open>after\<close> and nothing beyond it (all
  items when there is no such item), so that a lazy sequence fetches no page beyond the
  one that holds that item.
\<close>

theorem time_window_filter:
  assumes "sorted_wrt (\<lambda>x y. time_attr y \<le> time_attr x) items"
  shows "iterate_by_time_window items before after time_attr =
           (filter (\<lambda>x. after \<le> time_attr x \<and> time_attr x < before) items,
            if \<exists>x\<in>set items. time_attr x < after
            then Suc (length (takeWhile (\<lambda>x. \<not> time_attr x < after) items))
            else length items)"
  using iterate_by_time_window_yielded[OF assms, of before after]
    iterate_by_time_window_drawn[of items before after time_attr]
  by (simp add: prod_eq_iff)

theorem time_window_filter_witness:
  "sorted_wrt (\<lambda>x y. y \<le> x) [10, 5, 1, 0 :: int] \<and>
   iterate_by_time_window [10, 5, 1, 0 :: int] 8 2 (\<lambda>x. x) = ([5], 3)"
  using time_window_filter[of "\<lambda>x. x" "[10, 5, 1, 0 :: int]" 8 2]
  by simp


section \<open>Properties of the cached variant\<close>
























end
